theory Spec2Isabelle
  imports Main
begin

section \<open>Optical Morse receiver: the decoder of \<open>lab5_3/main/main.c\<close>\<close>

text \<open>
  The receiver samples a photo sensor every \<open>SAMPLE_MS\<close> milliseconds and turns the
  sequence of voltage readings into dots, dashes, letters and words.  The theory embeds
  the symbol table and \<open>morse_to_char\<close>, and the body of the sampling loop of
  \<open>app_main\<close> as a step function \<open>tick\<close> on an explicit record of the loop's local
  variables.  The ADC read that produces \<open>volt\<close> is the input of a step; the
  \<open>ESP_LOGI\<close> call that prints a decoded word is its output event.
\<close>

subsection \<open>The symbol table and its lookup\<close>

text \<open>\<open>MorseMap morse_table[]\<close>: the entries in the order of the source.\<close>

definition morse_table :: "(string \<times> char) list" where
  "morse_table =
    [(''.-'', CHR ''A''), (''-...'', CHR ''B''), (''-.-.'', CHR ''C''), (''-..'', CHR ''D''),
     (''.'', CHR ''E''), (''..-.'', CHR ''F''), (''--.'', CHR ''G''), (''....'', CHR ''H''),
     (''..'', CHR ''I''), (''.---'', CHR ''J''), (''-.-'', CHR ''K''), (''.-..'', CHR ''L''),
     (''--'', CHR ''M''), (''-.'', CHR ''N''), (''---'', CHR ''O''), (''.--.'', CHR ''P''),
     (''--.-'', CHR ''Q''), (''.-.'', CHR ''R''), (''...'', CHR ''S''), (''-'', CHR ''T''),
     (''..-'', CHR ''U''), (''...-'', CHR ''V''), (''.--'', CHR ''W''), (''-..-'', CHR ''X''),
     (''-.--'', CHR ''Y''), (''--..'', CHR ''Z''), (''-----'', CHR ''0''), (''.----'', CHR ''1''),
     (''..---'', CHR ''2''), (''...--'', CHR ''3''), (''....-'', CHR ''4''), (''.....'', CHR ''5''),
     (''-....'', CHR ''6''), (''--...'', CHR ''7''), (''---..'', CHR ''8''), (''----.'', CHR ''9'')]"

text \<open>
  The C library's \<open>strcmp\<close> on the contents of two NUL-terminated strings (the bytes
  before the terminator): negative, zero or positive as the first string is smaller than,
  equal to or greater than the second, bytes compared as unsigned values.
\<close>

fun strcmp :: "string \<Rightarrow> string \<Rightarrow> int" where
  "strcmp [] [] = 0"
| "strcmp [] (y # ys) = - 1"
| "strcmp (x # xs) [] = 1"
| "strcmp (x # xs) (y # ys) =
     (if x = y then strcmp xs ys
      else if (of_char x :: nat) < of_char y then - 1 else 1)"

text \<open>
  The loop of \<open>morse_to_char\<close> from entry \<open>i\<close> on: the first entry whose code compares
  equal decides; running off the end of the table gives the question mark.
\<close>

fun scan_table :: "(string \<times> char) list \<Rightarrow> string \<Rightarrow> char" where
  "scan_table [] code = CHR ''?''"
| "scan_table (e # es) code =
     (if strcmp (fst e) code = 0 then snd e else scan_table es code)"

definition morse_to_char :: "string \<Rightarrow> char" where
  "morse_to_char code = scan_table morse_table code"

subsection \<open>The state of the sampling loop\<close>

datatype edge = OFF | ON

text \<open>
  The locals of \<open>app_main\<close> that live across iterations.  \<open>duration\<close> is a C \<open>int\<close>;
  the two indices only count up from 0 and are set back to 0, so they are naturals.  The
  arrays are lists of their declared length.
\<close>

record decoder =
  state :: edge
  duration :: int
  letter_buf :: "char list"
  lidx :: nat
  word_buf :: "char list"
  widx :: nat

text \<open>
  What C leaves undefined stops the model: a write outside an array, and an addition on
  \<open>int\<close> whose result does not fit.  On the ESP32 targets the program is built for,
  \<open>int\<close> has 32 bits.
\<close>

datatype fault = OutOfBounds | SignedOverflow

text \<open>The one output of the loop: the line \<open>Decoded Word: %s\<close>.\<close>

datatype event = DecodedWord string

definition threshold :: int where "threshold = 40"
definition hysteresis :: int where "hysteresis = 5"
definition dot :: int where "dot = 50"
definition SAMPLE_MS :: int where "SAMPLE_MS = 10"
definition INT_MAX :: int where "INT_MAX = 2147483647"
definition INT_MIN :: int where "INT_MIN = - 2147483648"

definition NUL :: char where "NUL = CHR 0x00"

text \<open>\<open>buf[i] = c\<close> on an array: defined inside the array only.\<close>

definition store :: "char list \<Rightarrow> nat \<Rightarrow> char \<Rightarrow> fault + char list" where
  "store buf i c = (if i < length buf then Inr (buf[i := c]) else Inl OutOfBounds)"

text \<open>The string a \<open>char *\<close> to the start of an array denotes: the bytes before the
  first terminator.\<close>

definition c_str :: "char list \<Rightarrow> string" where
  "c_str buf = takeWhile (\<lambda>c. c \<noteq> NUL) buf"

text \<open>\<open>a + b\<close> on \<open>int\<close>.\<close>

definition add_int :: "int \<Rightarrow> int \<Rightarrow> fault + int" where
  "add_int a b =
     (if INT_MIN \<le> a + b \<and> a + b \<le> INT_MAX then Inr (a + b) else Inl SignedOverflow)"

text \<open>
  The block \<open>if(lidx>0){ letter_buf[lidx]='\0'; char c = morse_to_char(letter_buf);
  word_buf[widx++] = c; lidx=0; }\<close>, which the source has twice (word gap and letter gap).
\<close>

definition close_letter :: "decoder \<Rightarrow> fault + decoder" where
  "close_letter s =
     (if lidx s > 0 then
        (case store (letter_buf s) (lidx s) NUL of
           Inl e \<Rightarrow> Inl e
         | Inr lb \<Rightarrow>
            (case store (word_buf s) (widx s) (morse_to_char (c_str lb)) of
               Inl e \<Rightarrow> Inl e
             | Inr wb \<Rightarrow>
                Inr (s\<lparr>letter_buf := lb, word_buf := wb, widx := widx s + 1, lidx := 0\<rparr>)))
      else Inr s)"

text \<open>The block \<open>if(widx>0){ word_buf[widx]='\0'; ESP_LOGI(...); widx=0; }\<close>.\<close>

definition emit_word :: "decoder \<Rightarrow> fault + decoder \<times> event list" where
  "emit_word s =
     (if widx s > 0 then
        (case store (word_buf s) (widx s) NUL of
           Inl e \<Rightarrow> Inl e
         | Inr wb \<Rightarrow> Inr (s\<lparr>word_buf := wb, widx := 0\<rparr>, [DecodedWord (c_str wb)]))
      else Inr (s, []))"

text \<open>The body of \<open>if(state==OFF)\<close> in the lit branch: the gap that just ended.\<close>

definition rising :: "decoder \<Rightarrow> fault + decoder \<times> event list" where
  "rising s =
     (if duration s \<ge> 5 * dot then
        (case close_letter s of
           Inl e \<Rightarrow> Inl e
         | Inr s1 \<Rightarrow>
            (case emit_word s1 of
               Inl e \<Rightarrow> Inl e
             | Inr (s2, ev) \<Rightarrow> Inr (s2\<lparr>duration := 0\<rparr>, ev)))
      else if duration s \<ge> 2 * dot then
        (case close_letter s of
           Inl e \<Rightarrow> Inl e
         | Inr s1 \<Rightarrow> Inr (s1\<lparr>duration := 0\<rparr>, []))
      else Inr (s\<lparr>duration := 0\<rparr>, []))"

text \<open>The body of \<open>if(state==ON)\<close> in the dark branch: the pulse that just ended.\<close>

definition falling :: "decoder \<Rightarrow> fault + decoder" where
  "falling s =
     (case store (letter_buf s) (lidx s)
             (if duration s < 2 * dot then CHR ''.'' else CHR ''-'') of
        Inl e \<Rightarrow> Inl e
      | Inr lb \<Rightarrow> Inr (s\<lparr>letter_buf := lb, lidx := lidx s + 1, duration := 0\<rparr>))"

text \<open>The hysteresis test, against the level the loop is in.\<close>

definition led_on :: "decoder \<Rightarrow> int \<Rightarrow> bool" where
  "led_on s volt =
     (if state s = OFF then volt > threshold + hysteresis else volt > threshold - hysteresis)"

text \<open>\<open>state = lvl; duration += SAMPLE_MS;\<close> at the end of either branch.\<close>

definition settle :: "edge \<Rightarrow> decoder \<Rightarrow> fault + decoder" where
  "settle lvl s =
     (case add_int (duration s) SAMPLE_MS of
        Inl e \<Rightarrow> Inl e
      | Inr d \<Rightarrow> Inr (s\<lparr>state := lvl, duration := d\<rparr>))"

text \<open>One iteration of \<open>while(1)\<close>, from the reading \<open>volt\<close> to the delay.\<close>

definition tick :: "decoder \<Rightarrow> int \<Rightarrow> fault + decoder \<times> event list" where
  "tick s volt =
     (if led_on s volt then
        (case (if state s = OFF then rising s else Inr (s, [])) of
           Inl e \<Rightarrow> Inl e
         | Inr (s1, ev) \<Rightarrow>
            (case settle ON s1 of Inl e \<Rightarrow> Inl e | Inr s2 \<Rightarrow> Inr (s2, ev)))
      else
        (case (if state s = ON then falling s else Inr s) of
           Inl e \<Rightarrow> Inl e
         | Inr s1 \<Rightarrow>
            (case settle OFF s1 of Inl e \<Rightarrow> Inl e | Inr s2 \<Rightarrow> Inr (s2, []))))"

text \<open>
  The variables as the loop is entered.  The arrays are declared without an initialiser,
  so their first contents are any bytes: parameters here.
\<close>

definition init :: "char list \<Rightarrow> char list \<Rightarrow> decoder" where
  "init lb wb =
     \<lparr>state = OFF, duration = 0, letter_buf = lb, lidx = 0, word_buf = wb, widx = 0\<rparr>"

text \<open>The loop over a finite run of readings, with the words printed on the way.\<close>

fun run :: "decoder \<Rightarrow> int list \<Rightarrow> fault + decoder \<times> event list" where
  "run s [] = Inr (s, [])"
| "run s (v # vs) =
     (case tick s v of
        Inl e \<Rightarrow> Inl e
      | Inr (s1, ev1) \<Rightarrow>
         (case run s1 vs of
            Inl e \<Rightarrow> Inl e
          | Inr (s2, ev2) \<Rightarrow> Inr (s2, ev1 @ ev2)))"

subsection \<open>The buffers as the decoder reads them\<close>

text \<open>
  Only the first \<open>lidx\<close> entries of \<open>letter_buf\<close> and the first \<open>widx\<close> entries of
  \<open>word_buf\<close> are meaningful to the loop: every read of an array is of a string that a
  terminator written at the index has just closed.
\<close>

definition letter_code :: "decoder \<Rightarrow> string" where
  "letter_code s = take (lidx s) (letter_buf s)"

definition word_text :: "decoder \<Rightarrow> string" where
  "word_text s = take (widx s) (word_buf s)"

text \<open>
  The word buffer as the word-gap branch finds it when it tests \<open>widx>0\<close>: the letter
  block has run before, so a pending letter has been looked up and appended.
\<close>

definition closed_word :: "decoder \<Rightarrow> string" where
  "closed_word s =
     word_text s @ (if 0 < lidx s then [morse_to_char (letter_code s)] else [])"

text \<open>
  What holds of the variables whenever the loop is at the top of its body: the arrays have
  their declared lengths, an index is at most the length of its array, \<open>duration\<close> is
  a value of type \<open>int\<close>, the pending symbols are dots and dashes, and the pending
  characters contain no terminator.
\<close>

definition wellformed :: "decoder \<Rightarrow> bool" where
  "wellformed s \<longleftrightarrow>
     length (letter_buf s) = 16 \<and> length (word_buf s) = 64 \<and>
     lidx s \<le> 16 \<and> widx s \<le> 64 \<and>
     INT_MIN \<le> duration s \<and> duration s \<le> INT_MAX \<and>
     list_all (\<lambda>c. c = CHR ''.'' \<or> c = CHR ''-'') (letter_code s) \<and>
     list_all (\<lambda>c. c \<noteq> NUL) (word_text s)"

section \<open>Properties of the lookup\<close>

lemma strcmp_eq_0: "strcmp a b = 0 \<longleftrightarrow> a = b"
  by (induction a b rule: strcmp.induct) auto

lemma scan_table_map_of:
  "scan_table t code = (case map_of t code of None \<Rightarrow> CHR ''?'' | Some c \<Rightarrow> c)"
  by (induction t) (auto simp: strcmp_eq_0)

lemma scan_table_range: "scan_table t code \<in> insert (CHR ''?'') (snd ` set t)"
  by (induction t) auto

lemma morse_to_char_not_NUL: "morse_to_char code \<noteq> NUL"
proof -
  have "NUL \<notin> insert (CHR ''?'') (snd ` set morse_table)"
    by (simp add: morse_table_def NUL_def)
  then show ?thesis
    unfolding morse_to_char_def using scan_table_range [of morse_table code] by metis
qed

section \<open>Arrays and the strings in them\<close>

lemma take_update_last: "n < length xs \<Longrightarrow> take (Suc n) (xs[n := c]) = take n xs @ [c]"
  by (simp add: take_Suc_conv_app_nth)

lemma c_str_terminated:
  assumes "n < length xs" and "list_all (\<lambda>c. c \<noteq> NUL) (take n xs)"
  shows "c_str (xs[n := NUL]) = take n xs"
proof -
  have "xs[n := NUL] = take n xs @ NUL # drop (Suc n) xs"
    using assms(1) by (simp add: upd_conv_take_nth_drop)
  moreover have "\<forall>c\<in>set (take n xs). c \<noteq> NUL"
    using assms(2) by (simp add: list_all_iff)
  ultimately show ?thesis
    by (simp add: c_str_def takeWhile_tail)
qed

lemma letter_code_no_NUL:
  "list_all (\<lambda>c. c = CHR ''.'' \<or> c = CHR ''-'') xs \<Longrightarrow> list_all (\<lambda>c. c \<noteq> NUL) xs"
  by (induction xs) (auto simp: NUL_def)

lemmas consts_defs = threshold_def hysteresis_def dot_def SAMPLE_MS_def INT_MAX_def INT_MIN_def

lemmas state_defs = wellformed_def letter_code_def word_text_def closed_word_def NUL_def

section \<open>The parts of one iteration\<close>

lemma settle_ok:
  "INT_MIN \<le> duration s + SAMPLE_MS \<Longrightarrow> duration s + SAMPLE_MS \<le> INT_MAX \<Longrightarrow>
   settle lvl s = Inr (s\<lparr>state := lvl, duration := duration s + SAMPLE_MS\<rparr>)"
  by (simp add: settle_def add_int_def)

lemma settle_reset: "settle lvl (s\<lparr>duration := 0\<rparr>) = Inr (s\<lparr>state := lvl, duration := SAMPLE_MS\<rparr>)"
  by (simp add: settle_def add_int_def consts_defs)

lemma settle_eq:
  "settle lvl s =
     (if INT_MIN \<le> duration s + SAMPLE_MS \<and> duration s + SAMPLE_MS \<le> INT_MAX
      then Inr (s\<lparr>state := lvl, duration := duration s + SAMPLE_MS\<rparr>)
      else Inl SignedOverflow)"
  by (simp add: settle_def add_int_def)

lemma settle_after_reset:
  "duration s1 = 0 \<Longrightarrow> settle lvl s1 = Inr (s1\<lparr>state := lvl, duration := SAMPLE_MS\<rparr>)"
  by (simp add: settle_eq consts_defs)

lemma settle_Inr:
  assumes "settle lvl s = Inr s'"
  shows "s' = s\<lparr>state := lvl, duration := duration s + SAMPLE_MS\<rparr> \<and>
         INT_MIN \<le> duration s + SAMPLE_MS \<and> duration s + SAMPLE_MS \<le> INT_MAX"
  using assms by (simp add: settle_def add_int_def split: if_splits)

lemma settle_Inl:
  "settle lvl s = Inl e \<longleftrightarrow>
     e = SignedOverflow \<and> \<not> (INT_MIN \<le> duration s + SAMPLE_MS \<and> duration s + SAMPLE_MS \<le> INT_MAX)"
  by (auto simp: settle_def add_int_def)

lemma close_letter_empty: "lidx s = 0 \<Longrightarrow> close_letter s = Inr s"
  by (simp add: close_letter_def)

lemma close_letter_pending:
  assumes "wellformed s" and "0 < lidx s" and "lidx s < 16" and "widx s < 64"
  shows "close_letter s =
           Inr (s\<lparr>letter_buf := (letter_buf s)[lidx s := NUL],
                  word_buf := (word_buf s)[widx s := morse_to_char (letter_code s)],
                  widx := widx s + 1, lidx := 0\<rparr>)"
proof -
  have len: "lidx s < length (letter_buf s)" "widx s < length (word_buf s)"
    using assms by (simp_all add: wellformed_def)
  have "list_all (\<lambda>c. c \<noteq> NUL) (take (lidx s) (letter_buf s))"
    using assms(1) letter_code_no_NUL by (simp add: wellformed_def letter_code_def)
  then have "c_str ((letter_buf s)[lidx s := NUL]) = letter_code s"
    using len(1) by (simp add: c_str_terminated letter_code_def)
  then show ?thesis
    using len assms(2) by (simp add: close_letter_def store_def)
qed

lemma emit_word_empty: "widx s = 0 \<Longrightarrow> emit_word s = Inr (s, [])"
  by (simp add: emit_word_def)

lemma emit_word_pending:
  assumes "0 < widx s" and "widx s < length (word_buf s)"
    and "list_all (\<lambda>c. c \<noteq> NUL) (word_text s)"
  shows "emit_word s =
           Inr (s\<lparr>word_buf := (word_buf s)[widx s := NUL], widx := 0\<rparr>,
                [DecodedWord (word_text s)])"
  using assms by (simp add: emit_word_def store_def c_str_terminated word_text_def)

lemma close_letter_eq:
  assumes "wellformed s"
  shows "close_letter s =
           (if lidx s = 0 then Inr s
            else if lidx s < 16 \<and> widx s < 64 then
              Inr (s\<lparr>letter_buf := (letter_buf s)[lidx s := NUL],
                     word_buf := (word_buf s)[widx s := morse_to_char (letter_code s)],
                     widx := widx s + 1, lidx := 0\<rparr>)
            else Inl OutOfBounds)"
proof (cases "lidx s = 0")
  case True
  then show ?thesis by (simp add: close_letter_empty)
next
  case False
  show ?thesis
  proof (cases "lidx s < 16 \<and> widx s < 64")
    case True
    then show ?thesis
      using False assms close_letter_pending [of s] by simp
  next
    case False
    then show ?thesis
      using \<open>lidx s \<noteq> 0\<close> assms by (auto simp: close_letter_def store_def wellformed_def)
  qed
qed

lemma emit_word_eq:
  assumes "length (word_buf s) = 64" and "list_all (\<lambda>c. c \<noteq> NUL) (word_text s)"
  shows "emit_word s =
           (if widx s = 0 then Inr (s, [])
            else if widx s < 64 then
              Inr (s\<lparr>word_buf := (word_buf s)[widx s := NUL], widx := 0\<rparr>,
                   [DecodedWord (word_text s)])
            else Inl OutOfBounds)"
proof (cases "0 < widx s \<and> widx s < 64")
  case True
  then show ?thesis using assms emit_word_pending [of s] by simp
next
  case False
  then show ?thesis using assms(1) by (auto simp: emit_word_def store_def)
qed

lemma falling_eq:
  "falling s =
     (if lidx s < length (letter_buf s) then
        Inr (s\<lparr>letter_buf :=
                  (letter_buf s)[lidx s := if duration s < 2 * dot then CHR ''.'' else CHR ''-''],
               lidx := lidx s + 1, duration := 0\<rparr>)
      else Inl OutOfBounds)"
  by (simp add: falling_def store_def)

section \<open>The invariant\<close>

lemma close_letter_wf:
  assumes "wellformed s" and "close_letter s = Inr s1"
  shows "wellformed s1 \<and> duration s1 = duration s \<and> state s1 = state s \<and>
         word_text s1 = word_text s @ (if 0 < lidx s then [morse_to_char (letter_code s)] else []) \<and>
         widx s1 = widx s + (if 0 < lidx s then 1 else 0) \<and> lidx s1 = 0"
proof (cases "lidx s = 0")
  case True
  then show ?thesis using assms by (simp add: close_letter_empty)
next
  case False
  then have ok: "lidx s < 16 \<and> widx s < 64"
    using assms by (simp add: close_letter_eq split: if_splits)
  then have s1: "s1 = s\<lparr>letter_buf := (letter_buf s)[lidx s := NUL],
                     word_buf := (word_buf s)[widx s := morse_to_char (letter_code s)],
                     widx := widx s + 1, lidx := 0\<rparr>"
    using False assms by (simp add: close_letter_eq)
  have wlen: "widx s < length (word_buf s)"
    using ok assms(1) by (simp add: wellformed_def)
  have wt: "word_text s1 = word_text s @ [morse_to_char (letter_code s)]"
    using wlen by (simp add: s1 word_text_def take_update_last)
  have "wellformed s1"
    using assms(1) ok wt morse_to_char_not_NUL [of "letter_code s"]
    by (simp add: wellformed_def) (simp add: s1 letter_code_def)
  then show ?thesis
    using wt False by (simp add: s1)
qed

lemma emit_word_wf:
  assumes "wellformed s" and "emit_word s = Inr (s1, ev)"
  shows "wellformed s1 \<and> duration s1 = duration s \<and> state s1 = state s \<and> widx s1 = 0 \<and>
         lidx s1 = lidx s \<and> letter_buf s1 = letter_buf s \<and>
         ev = (if 0 < widx s then [DecodedWord (word_text s)] else [])"
proof -
  have pre: "length (word_buf s) = 64" "list_all (\<lambda>c. c \<noteq> NUL) (word_text s)"
    using assms(1) by (simp_all add: wellformed_def)
  show ?thesis
  proof (cases "widx s = 0")
    case True
    then show ?thesis using assms by (simp add: emit_word_empty)
  next
    case False
    then have lt: "widx s < 64"
      using assms(2) emit_word_eq [OF pre] by (simp split: if_splits)
    then have s1: "s1 = s\<lparr>word_buf := (word_buf s)[widx s := NUL], widx := 0\<rparr>"
      and ev: "ev = [DecodedWord (word_text s)]"
      using False assms(2) emit_word_eq [OF pre] by simp_all
    have "wellformed s1"
      using assms(1) by (simp add: wellformed_def) (simp add: s1 letter_code_def word_text_def)
    then show ?thesis using False ev by (simp add: s1)
  qed
qed

lemma falling_wf:
  assumes "wellformed s" and "falling s = Inr s1"
  shows "wellformed s1 \<and> duration s1 = 0 \<and> state s1 = state s"
proof -
  have lt: "lidx s < length (letter_buf s)"
    using assms(2) by (simp add: falling_eq split: if_splits)
  then have s1: "s1 = s\<lparr>letter_buf :=
                  (letter_buf s)[lidx s := if duration s < 2 * dot then CHR ''.'' else CHR ''-''],
               lidx := lidx s + 1, duration := 0\<rparr>"
    using assms(2) by (simp add: falling_eq)
  have "letter_code s1 =
          letter_code s @ [if duration s < 2 * dot then CHR ''.'' else CHR ''-'']"
    using lt by (simp add: s1 letter_code_def take_update_last)
  then have "wellformed s1"
    using assms(1) lt by (simp add: wellformed_def) (simp add: s1 word_text_def consts_defs)
  then show ?thesis by (simp add: s1)
qed

lemma wf_duration_update:
  "wellformed s \<Longrightarrow> INT_MIN \<le> d \<Longrightarrow> d \<le> INT_MAX \<Longrightarrow> wellformed (s\<lparr>state := lvl, duration := d\<rparr>)"
  by (simp add: wellformed_def letter_code_def word_text_def)

lemma wf_duration_reset: "wellformed s \<Longrightarrow> wellformed (s\<lparr>duration := 0\<rparr>)"
  by (simp add: wellformed_def letter_code_def word_text_def consts_defs)

lemma rising_wf:
  assumes "wellformed s" and "rising s = Inr (s1, ev)"
  shows "wellformed s1 \<and> duration s1 = 0 \<and> state s1 = state s"
proof -
  consider (word) "5 * dot \<le> duration s"
    | (letter) "\<not> 5 * dot \<le> duration s" "2 * dot \<le> duration s"
    | (none) "\<not> 5 * dot \<le> duration s" "\<not> 2 * dot \<le> duration s"
    by blast
  then show ?thesis
  proof cases
    case word
    then obtain s2 s3 where c: "close_letter s = Inr s2" and e: "emit_word s2 = Inr (s3, ev)"
      and s1: "s1 = s3\<lparr>duration := 0\<rparr>"
      using assms(2) by (auto simp: rising_def split: sum.splits prod.splits)
    have "wellformed s2 \<and> state s2 = state s" using close_letter_wf [OF assms(1) c] by simp
    then have "wellformed s3 \<and> state s3 = state s" using emit_word_wf [OF _ e] by simp
    then show ?thesis by (simp add: s1 wf_duration_reset)
  next
    case letter
    then obtain s2 where c: "close_letter s = Inr s2" and s1: "s1 = s2\<lparr>duration := 0\<rparr>"
      using assms(2) by (auto simp: rising_def split: sum.splits)
    have "wellformed s2 \<and> state s2 = state s" using close_letter_wf [OF assms(1) c] by simp
    then show ?thesis by (simp add: s1 wf_duration_reset)
  next
    case none
    then have "s1 = s\<lparr>duration := 0\<rparr>" using assms(2) by (simp add: rising_def)
    then show ?thesis using assms(1) by (simp add: wf_duration_reset)
  qed
qed

lemma settle_wf:
  assumes "wellformed s" and "settle lvl s = Inr s1"
  shows "wellformed s1"
proof -
  have "INT_MIN \<le> duration s + SAMPLE_MS \<and> duration s + SAMPLE_MS \<le> INT_MAX"
    using assms(2) by (simp add: settle_def add_int_def split: if_splits)
  moreover from this have "s1 = s\<lparr>state := lvl, duration := duration s + SAMPLE_MS\<rparr>"
    using assms(2) by (simp add: settle_ok)
  ultimately show ?thesis using assms(1) by (simp add: wf_duration_update)
qed

text \<open>The three ways an iteration can complete.\<close>

lemma tick_Inr_cases:
  assumes "tick s volt = Inr (s', ev)"
  obtains
    (level) "led_on s volt \<longleftrightarrow> state s = ON" and "ev = []"
      and "settle (state s) s = Inr s'"
  | (rise) s1 where "led_on s volt" and "state s = OFF" and "rising s = Inr (s1, ev)"
      and "settle ON s1 = Inr s'"
  | (fall) s1 where "\<not> led_on s volt" and "state s = ON" and "falling s = Inr s1"
      and "ev = []" and "settle OFF s1 = Inr s'"
proof (cases "led_on s volt")
  case on: True
  show ?thesis
  proof (cases "state s")
    case OFF
    then obtain s1 where "rising s = Inr (s1, ev)" and "settle ON s1 = Inr s'"
      using assms on by (auto simp: tick_def split: sum.splits prod.splits)
    then show ?thesis using rise on OFF by blast
  next
    case ON
    then have "settle ON s = Inr s'" and "ev = []"
      using assms on by (auto simp: tick_def split: sum.splits)
    then show ?thesis using level on ON by simp
  qed
next
  case off: False
  show ?thesis
  proof (cases "state s")
    case OFF
    then have "settle OFF s = Inr s'" and "ev = []"
      using assms off by (auto simp: tick_def split: sum.splits)
    then show ?thesis using level off OFF by simp
  next
    case ON
    then obtain s1 where "falling s = Inr s1" and "settle OFF s1 = Inr s'" and "ev = []"
      using assms off by (auto simp: tick_def split: sum.splits)
    then show ?thesis using fall off ON by blast
  qed
qed

lemma tick_wf:
  assumes "wellformed s" and "tick s volt = Inr (s', ev)"
  shows "wellformed s'"
  using assms(2)
proof (cases rule: tick_Inr_cases)
  case level
  then show ?thesis using settle_wf [OF assms(1)] by blast
next
  case (rise s1)
  then show ?thesis using rising_wf [OF assms(1)] settle_wf by blast
next
  case (fall s1)
  then show ?thesis using falling_wf [OF assms(1)] settle_wf by blast
qed

lemma init_wf: "length lb = 16 \<Longrightarrow> length wb = 64 \<Longrightarrow> wellformed (init lb wb)"
  by (simp add: wellformed_def init_def letter_code_def word_text_def consts_defs)

lemma run_wf: "wellformed s \<Longrightarrow> run s vs = Inr (s', evs) \<Longrightarrow> wellformed s'"
proof (induction vs arbitrary: s evs)
  case Nil
  then show ?case by simp
next
  case (Cons v vs)
  from Cons.prems(2) obtain s1 ev1 evs1 where t: "tick s v = Inr (s1, ev1)"
    and r: "run s1 vs = Inr (s', evs1)"
    by (auto split: sum.splits prod.splits)
  have "wellformed s1" using tick_wf [OF Cons.prems(1) t] .
  then show ?case using Cons.IH r by blast
qed

lemma tick_state:
  assumes "tick s volt = Inr (s', ev)"
  shows "state s' = (if led_on s volt then ON else OFF)"
  using assms
proof (cases rule: tick_Inr_cases)
  case level
  then show ?thesis using settle_Inr [of "state s" s s'] by (cases "state s") auto
next
  case (rise s1)
  then show ?thesis using settle_Inr [of ON s1 s'] by simp
next
  case (fall s1)
  then show ?thesis using settle_Inr [of OFF s1 s'] by simp
qed

lemma word_text_length: "wellformed s \<Longrightarrow> length (word_text s) = widx s"
  by (simp add: wellformed_def word_text_def)


section \<open>When an iteration completes, and what it prints\<close>

lemma rising_returns:
  assumes "wellformed s" and "lidx s < 16" and "widx s < 63"
  shows "\<exists>s1 ev. rising s = Inr (s1, ev)"
proof -
  have "\<exists>s2. close_letter s = Inr s2"
    using assms by (simp add: close_letter_eq)
  then obtain s2 where c: "close_letter s = Inr s2" ..
  note c2 = close_letter_wf [OF assms(1) c]
  then have "wellformed s2" by simp
  then have pre: "length (word_buf s2) = 64" "list_all (\<lambda>c. c \<noteq> NUL) (word_text s2)"
    by (simp_all add: wellformed_def)
  have "widx s2 < 64" using c2 assms(3) by (simp split: if_splits)
  then have "\<exists>s3 ev. emit_word s2 = Inr (s3, ev)"
    using emit_word_eq [OF pre] by simp
  then show ?thesis using c by (auto simp: rising_def)
qed

lemma tick_returns:
  assumes "wellformed s" and "lidx s < 16" and "widx s < 63"
    and "duration s + SAMPLE_MS \<le> INT_MAX"
  shows "\<exists>s' ev. tick s volt = Inr (s', ev)"
proof -
  have rng: "INT_MIN \<le> duration s + SAMPLE_MS"
    using assms(1) by (simp add: wellformed_def consts_defs)
  have lvl: "\<And>l. settle l s = Inr (s\<lparr>state := l, duration := duration s + SAMPLE_MS\<rparr>)"
    using rng assms(4) by (simp add: settle_ok)
  show ?thesis
  proof (cases "led_on s volt")
    case on: True
    show ?thesis
    proof (cases "state s")
      case OFF
      obtain s1 ev where r: "rising s = Inr (s1, ev)"
        using rising_returns [OF assms(1-3)] by blast
      then have "duration s1 = 0" using rising_wf [OF assms(1) r] by simp
      then have "settle ON s1 = Inr (s1\<lparr>state := ON, duration := 0 + SAMPLE_MS\<rparr>)"
        by (simp add: settle_def add_int_def consts_defs)
      then show ?thesis using on OFF r by (simp add: tick_def)
    next
      case ON
      then show ?thesis using on lvl by (simp add: tick_def)
    qed
  next
    case off: False
    show ?thesis
    proof (cases "state s")
      case OFF
      then show ?thesis using off lvl by (simp add: tick_def)
    next
      case ON
      have "lidx s < length (letter_buf s)"
        using assms(1,2) by (simp add: wellformed_def)
      then show ?thesis
        using off ON by (simp add: tick_def falling_eq settle_reset)
    qed
  qed
qed

lemma rising_events:
  assumes "wellformed s" and "rising s = Inr (s1, ev)"
  shows "ev = (if 5 * dot \<le> duration s \<and> closed_word s \<noteq> []
               then [DecodedWord (closed_word s)] else [])"
    and "5 * dot \<le> duration s \<Longrightarrow> lidx s1 = 0 \<and> widx s1 = 0"
proof -
  show "ev = (if 5 * dot \<le> duration s \<and> closed_word s \<noteq> []
               then [DecodedWord (closed_word s)] else [])"
  proof (cases "5 * dot \<le> duration s")
    case True
    then obtain s2 s3 where c: "close_letter s = Inr s2" and e: "emit_word s2 = Inr (s3, ev)"
      using assms(2) by (auto simp: rising_def split: sum.splits prod.splits)
    note c2 = close_letter_wf [OF assms(1) c]
    then have w: "word_text s2 = closed_word s" and "wellformed s2"
      by (simp_all add: closed_word_def)
    then have "length (closed_word s) = widx s2"
      using word_text_length [of s2] by simp
    then have "0 < widx s2 \<longleftrightarrow> closed_word s \<noteq> []"
      by (cases "closed_word s") auto
    then show ?thesis
      using True emit_word_wf [OF \<open>wellformed s2\<close> e] w by simp
  next
    case False
    then show ?thesis
      using assms(2) by (auto simp: rising_def split: if_splits sum.splits)
  qed
next
  assume "5 * dot \<le> duration s"
  then obtain s2 s3 where c: "close_letter s = Inr s2" and e: "emit_word s2 = Inr (s3, ev)"
    and s1: "s1 = s3\<lparr>duration := 0\<rparr>"
    using assms(2) by (auto simp: rising_def split: sum.splits prod.splits)
  note c2 = close_letter_wf [OF assms(1) c]
  then have "wellformed s2" by simp
  from emit_word_wf [OF this e] c2 show "lidx s1 = 0 \<and> widx s1 = 0"
    by (simp add: s1)
qed

section \<open>When an iteration leaves defined behaviour\<close>

lemma close_letter_Inl:
  assumes "wellformed s"
  shows "close_letter s = Inl e \<longleftrightarrow>
           e = OutOfBounds \<and> 0 < lidx s \<and> (lidx s = 16 \<or> widx s = 64)"
proof -
  have "lidx s \<le> 16" "widx s \<le> 64" using assms by (simp_all add: wellformed_def)
  then show ?thesis by (auto simp: close_letter_eq [OF assms])
qed

lemma emit_word_Inl:
  assumes "wellformed s"
  shows "emit_word s = Inl e \<longleftrightarrow> e = OutOfBounds \<and> widx s = 64"
proof -
  have pre: "length (word_buf s) = 64" "list_all (\<lambda>c. c \<noteq> NUL) (word_text s)"
    and "widx s \<le> 64"
    using assms by (simp_all add: wellformed_def)
  then show ?thesis by (auto simp: emit_word_eq [OF pre])
qed

lemma rising_Inl:
  assumes "wellformed s"
  shows "rising s = Inl e \<longleftrightarrow>
           e = OutOfBounds \<and> 2 * dot \<le> duration s \<and>
           (0 < lidx s \<and> (lidx s = 16 \<or> widx s = 64) \<or>
            5 * dot \<le> duration s \<and> widx s + (if 0 < lidx s then 1 else 0) = 64)"
proof (cases "close_letter s")
  case (Inl e')
  then have f: "e' = OutOfBounds \<and> 0 < lidx s \<and> (lidx s = 16 \<or> widx s = 64)"
    using close_letter_Inl [OF assms] by simp
  then show ?thesis using Inl by (auto simp: rising_def consts_defs)
next
  case (Inr s2)
  note c2 = close_letter_wf [OF assms Inr]
  then have w2: "wellformed s2" by simp
  have nf: "\<not> (0 < lidx s \<and> (lidx s = 16 \<or> widx s = 64))"
    using Inr close_letter_Inl [OF assms, of OutOfBounds] by auto
  have widx2: "widx s2 = widx s + (if 0 < lidx s then 1 else 0)" using c2 by simp
  show ?thesis
  proof (cases "5 * dot \<le> duration s")
    case True
    then have "rising s = Inl e \<longleftrightarrow> emit_word s2 = Inl e"
      using Inr by (auto simp: rising_def split: sum.splits)
    also have "\<dots> \<longleftrightarrow> e = OutOfBounds \<and> widx s2 = 64"
      using emit_word_Inl [OF w2] .
    finally show ?thesis using nf widx2 True by (auto simp: consts_defs)
  next
    case False
    then have "rising s \<noteq> Inl e" using Inr by (auto simp: rising_def)
    then show ?thesis using nf False by auto
  qed
qed

lemma falling_Inl: "falling s = Inl e \<longleftrightarrow> e = OutOfBounds \<and> length (letter_buf s) \<le> lidx s"
  by (auto simp: falling_eq)

lemma tick_OutOfBounds:
  assumes "wellformed s"
  shows "tick s volt = Inl OutOfBounds \<longleftrightarrow>
           (if led_on s volt then
              state s = OFF \<and> 2 * dot \<le> duration s \<and>
              (0 < lidx s \<and> (lidx s = 16 \<or> widx s = 64) \<or>
               5 * dot \<le> duration s \<and> widx s + (if 0 < lidx s then 1 else 0) = 64)
            else state s = ON \<and> lidx s = 16)"
proof (cases "led_on s volt")
  case on: True
  show ?thesis
  proof (cases "state s")
    case OFF
    show ?thesis
    proof (cases "rising s")
      case (Inl e)
      then show ?thesis
        using on OFF rising_Inl [OF assms, of e] rising_Inl [OF assms, of OutOfBounds]
        by (simp add: tick_def)
    next
      case (Inr p)
      obtain s1 ev where p: "p = (s1, ev)" by (cases p)
      have "duration s1 = 0" using rising_wf [OF assms] Inr p by simp
      then have "tick s volt \<noteq> Inl OutOfBounds"
        using on OFF Inr p by (simp add: tick_def settle_after_reset)
      then show ?thesis
        using on OFF Inr rising_Inl [OF assms, of OutOfBounds] by simp
    qed
  next
    case ON
    then show ?thesis
      using on by (simp add: tick_def settle_eq)
  qed
next
  case off: False
  show ?thesis
  proof (cases "state s")
    case OFF
    then show ?thesis
      using off by (simp add: tick_def settle_eq)
  next
    case ON
    have len: "length (letter_buf s) = 16" "lidx s \<le> 16"
      using assms by (simp_all add: wellformed_def)
    show ?thesis
    proof (cases "falling s")
      case (Inl e)
      then show ?thesis
        using off ON len falling_Inl [of s e] by (simp add: tick_def)
    next
      case (Inr s1)
      then have "duration s1 = 0" using falling_wf [OF assms] by simp
      then have "tick s volt \<noteq> Inl OutOfBounds"
        using off ON Inr by (simp add: tick_def settle_after_reset)
      then show ?thesis
        using off ON Inr len falling_Inl [of s OutOfBounds] by simp
    qed
  qed
qed

lemma tick_SignedOverflow:
  assumes "wellformed s"
  shows "tick s volt = Inl SignedOverflow \<longleftrightarrow>
           (led_on s volt \<longleftrightarrow> state s = ON) \<and> INT_MAX < duration s + SAMPLE_MS"
proof -
  have lo: "INT_MIN \<le> duration s + SAMPLE_MS"
    using assms by (simp add: wellformed_def consts_defs)
  show ?thesis
  proof (cases "led_on s volt")
    case on: True
    show ?thesis
    proof (cases "state s")
      case OFF
      have "tick s volt \<noteq> Inl SignedOverflow"
      proof (cases "rising s")
        case (Inl e)
        then show ?thesis
          using on OFF rising_Inl [OF assms, of e] by (simp add: tick_def)
      next
        case (Inr p)
        obtain s1 ev where p: "p = (s1, ev)" by (cases p)
        have "duration s1 = 0" using rising_wf [OF assms] Inr p by simp
        then show ?thesis
          using on OFF Inr p by (simp add: tick_def settle_after_reset)
      qed
      then show ?thesis using on OFF by simp
    next
      case ON
      then show ?thesis
        using on lo by (simp add: tick_def settle_eq)
    qed
  next
    case off: False
    show ?thesis
    proof (cases "state s")
      case OFF
      then show ?thesis
        using off lo by (simp add: tick_def settle_eq)
    next
      case ON
      have "tick s volt \<noteq> Inl SignedOverflow"
      proof (cases "falling s")
        case (Inl e)
        then show ?thesis
          using off ON falling_Inl [of s e] by (simp add: tick_def)
      next
        case (Inr s1)
        then have "duration s1 = 0" using falling_wf [OF assms] by simp
        then show ?thesis
          using off ON Inr by (simp add: tick_def settle_after_reset)
      qed
      then show ?thesis using off ON by simp
    qed
  qed
qed

section \<open>Runs of the loop\<close>

lemma run_append:
  "run s (xs @ ys) =
     (case run s xs of
        Inl e \<Rightarrow> Inl e
      | Inr (s1, ev1) \<Rightarrow>
         (case run s1 ys of Inl e \<Rightarrow> Inl e | Inr (s2, ev2) \<Rightarrow> Inr (s2, ev1 @ ev2)))"
  by (induction xs arbitrary: s) (auto split: sum.splits prod.splits)

lemma tick_dark_level:
  assumes "state s = OFF" and "volt \<le> threshold + hysteresis"
  shows "tick s volt = 
           (if INT_MIN \<le> duration s + SAMPLE_MS \<and> duration s + SAMPLE_MS \<le> INT_MAX
            then Inr (s\<lparr>duration := duration s + SAMPLE_MS\<rparr>, [])
            else Inl SignedOverflow)"
proof -
  have "s\<lparr>state := OFF, duration := duration s + SAMPLE_MS\<rparr> = s\<lparr>duration := duration s + SAMPLE_MS\<rparr>"
    using assms(1) by (cases s) simp
  then show ?thesis
    using assms by (simp add: tick_def led_on_def settle_eq)
qed

lemma run_dark_level:
  assumes "state s = OFF" and "volt \<le> threshold + hysteresis"
    and "INT_MIN \<le> duration s" and "duration s + SAMPLE_MS * int n \<le> INT_MAX"
  shows "run s (replicate n volt) = Inr (s\<lparr>duration := duration s + SAMPLE_MS * int n\<rparr>, [])"
  using assms
proof (induction n arbitrary: s)
  case 0
  then show ?case by simp
next
  case (Suc n)
  let ?s1 = "s\<lparr>duration := duration s + SAMPLE_MS\<rparr>"
  have t: "tick s volt = Inr (?s1, [])"
    using Suc.prems by (simp add: tick_dark_level consts_defs)
  have "run ?s1 (replicate n volt) = Inr (?s1\<lparr>duration := duration ?s1 + SAMPLE_MS * int n\<rparr>, [])"
    using Suc.prems by (intro Suc.IH) (simp_all add: consts_defs)
  then show ?case
    using t by (simp add: algebra_simps)
qed

section \<open>A replay\<close>

text \<open>
  Two pulses of 50 ms, 50 ms apart, then 250 ms of dark and the next pulse: the loop
  collects two dots, and on the rising edge closes them as \<open>I\<close> and prints the word.
\<close>

lemma two_dots_then_word_gap:
  "run (init (replicate 16 NUL) (replicate 64 NUL))
       (replicate 5 100 @ replicate 5 10 @ replicate 5 100 @ replicate 25 10 @ [100])
     = Inr (\<lparr>state = ON, duration = 10,
              letter_buf = ''..'' @ replicate 14 NUL, lidx = 0,
              word_buf = ''I'' @ replicate 63 NUL, widx = 0\<rparr>,
            [DecodedWord ''I''])"
  by code_simp

section \<open>The claims of the specification\<close>

subsection \<open>C1: a completed pulse is one dot or one dash, while the letter buffer has room\<close>

text \<open>
  C1, as the code has it.  On a falling edge (the loop is in \<open>ON\<close> and the reading is
  at most \<open>threshold - hysteresis\<close>) that ends a pulse of accumulated duration
  \<open>duration s\<close>:
  \<^item> while the letter buffer has room (\<open>lidx\<close> below the length of the array, 16), the
    iteration appends exactly one symbol to the letter buffer: a dot when the duration is
    below \<open>2 * dot\<close>, a dash when it is \<open>2 * dot\<close> or more, the boundary included.  The
    edge block sets \<open>duration\<close> to 0; the iteration then counts its own sample, so it
    ends with \<open>duration = 0 + SAMPLE_MS\<close>, in \<open>OFF\<close>, with the word buffer untouched
    and nothing printed;
  \<^item> with the letter buffer full, the symbol is written one element past the array, which
    C leaves undefined: the code has no capacity check.
\<close>

theorem falling_edge_symbol_or_overrun:
  assumes "state s = ON" and "volt \<le> threshold - hysteresis"
  shows "(lidx s < length (letter_buf s) \<longrightarrow>
            falling s =
              Inr (s\<lparr>letter_buf :=
                        (letter_buf s)[lidx s := if duration s < 2 * dot then CHR ''.'' else CHR ''-''],
                     lidx := lidx s + 1, duration := 0\<rparr>) \<and>
            (\<exists>s'. tick s volt = Inr (s', []) \<and>
               letter_code s' =
                 letter_code s @ [if duration s < 2 * dot then CHR ''.'' else CHR ''-''] \<and>
               lidx s' = lidx s + 1 \<and> duration s' = 0 + SAMPLE_MS \<and> state s' = OFF \<and>
               word_buf s' = word_buf s \<and> widx s' = widx s)) \<and>
         (length (letter_buf s) \<le> lidx s \<longrightarrow>
            falling s = Inl OutOfBounds \<and> tick s volt = Inl OutOfBounds)"
proof (intro conjI impI)
  assume room: "lidx s < length (letter_buf s)"
  then show "falling s =
              Inr (s\<lparr>letter_buf :=
                        (letter_buf s)[lidx s := if duration s < 2 * dot then CHR ''.'' else CHR ''-''],
                     lidx := lidx s + 1, duration := 0\<rparr>)"
    by (simp add: falling_eq)
  show "\<exists>s'. tick s volt = Inr (s', []) \<and>
               letter_code s' =
                 letter_code s @ [if duration s < 2 * dot then CHR ''.'' else CHR ''-''] \<and>
               lidx s' = lidx s + 1 \<and> duration s' = 0 + SAMPLE_MS \<and> state s' = OFF \<and>
               word_buf s' = word_buf s \<and> widx s' = widx s"
    using assms room
    by (simp add: tick_def led_on_def falling_eq settle_after_reset
        letter_code_def take_update_last consts_defs)
next
  assume full: "length (letter_buf s) \<le> lidx s"
  then show "falling s = Inl OutOfBounds" by (simp add: falling_eq)
  then show "tick s volt = Inl OutOfBounds"
    using assms by (simp add: tick_def led_on_def)
qed

text \<open>A pulse of exactly \<open>2 * dot\<close> = 100 ms is a dash; a pulse that ends with sixteen
  symbols buffered is the write past the array.\<close>

theorem falling_edge_symbol_or_overrun_witness:
  "(\<exists>s'. tick ((init (replicate 16 NUL) (replicate 64 NUL))\<lparr>state := ON, duration := 100\<rparr>) 35
            = Inr (s', []) \<and>
         letter_code s' = ''-'' \<and> lidx s' = 1 \<and> duration s' = 10 \<and> state s' = OFF) \<and>
   tick \<lparr>state = ON, duration = 50, letter_buf = replicate 16 (CHR ''.''), lidx = 16,
         word_buf = replicate 64 NUL, widx = 0\<rparr> 10 = Inl OutOfBounds"
proof -
  let ?s = "(init (replicate 16 NUL) (replicate 64 NUL))\<lparr>state := ON, duration := 100\<rparr>"
  let ?f = "\<lparr>state = ON, duration = 50, letter_buf = replicate 16 (CHR ''.''), lidx = 16,
             word_buf = replicate 64 NUL, widx = 0\<rparr>"
  have "state ?s = ON" and "35 \<le> threshold - hysteresis"
    by (simp_all add: init_def consts_defs)
  note a = falling_edge_symbol_or_overrun [OF this, THEN conjunct1]
  have "lidx ?s < length (letter_buf ?s)" by (simp add: init_def)
  with a obtain s' where "tick ?s 35 = Inr (s', [])"
    and "letter_code s' = letter_code ?s @ [if duration ?s < 2 * dot then CHR ''.'' else CHR ''-'']"
    and "lidx s' = lidx ?s + 1" and "duration s' = 0 + SAMPLE_MS" and "state s' = OFF"
    by blast
  then have first: "\<exists>s'. tick ?s 35 = Inr (s', []) \<and>
         letter_code s' = ''-'' \<and> lidx s' = 1 \<and> duration s' = 10 \<and> state s' = OFF"
    by (simp add: init_def letter_code_def consts_defs)
  have "state ?f = ON" and "10 \<le> threshold - hysteresis"
    by (simp_all add: consts_defs)
  note b = falling_edge_symbol_or_overrun [OF this, THEN conjunct2]
  have "length (letter_buf ?f) \<le> lidx ?f" by simp
  with b have "tick ?f 10 = Inl OutOfBounds" by blast
  with first show ?thesis by blast
qed

text \<open>
  The claim that every completed pulse appends one symbol fails: sixteen pulses of 50 ms,
  50 ms apart, from the start fill the letter buffer, and the falling edge of the next
  pulse appends nothing to it.
\<close>

lemma sixteen_spaced_dots:
  "run (init (replicate 16 NUL) (replicate 64 NUL))
       (concat (replicate 16 (replicate 5 100 @ replicate 5 10)) @ replicate 5 100)
     = Inr (\<lparr>state = ON, duration = 50, letter_buf = replicate 16 (CHR ''.''), lidx = 16,
              word_buf = replicate 64 NUL, widx = 0\<rparr>, [])"
  by code_simp

theorem seventeenth_pulse_not_appended:
  "run (init (replicate 16 NUL) (replicate 64 NUL))
       (concat (replicate 16 (replicate 5 100 @ replicate 5 10)) @ replicate 5 100)
     = Inr (\<lparr>state = ON, duration = 50, letter_buf = replicate 16 (CHR ''.''), lidx = 16,
              word_buf = replicate 64 NUL, widx = 0\<rparr>, []) \<and>
   tick \<lparr>state = ON, duration = 50, letter_buf = replicate 16 (CHR ''.''), lidx = 16,
         word_buf = replicate 64 NUL, widx = 0\<rparr> 10 = Inl OutOfBounds"
proof -
  have "tick \<lparr>state = ON, duration = 50, letter_buf = replicate 16 (CHR ''.''), lidx = 16,
         word_buf = replicate 64 NUL, widx = 0\<rparr> 10 = Inl OutOfBounds"
    by (simp add: tick_def led_on_def falling_eq consts_defs)
  then show ?thesis using sixteen_spaced_dots by simp
qed

subsection \<open>C2: a word is printed on a word gap, and only there\<close>



subsection \<open>C3: the buffers have no capacity check\<close>

text \<open>
  C3, as the code has it.  In every state the loop reaches from its start without having
  left defined behaviour, \<open>lidx\<close> is at most 16 and \<open>widx\<close> at most 64, and both arrays
  keep their lengths.  The code has no capacity check and no overflow policy: from such a
  state the next iteration writes one element past an array exactly when
  \<^item> it sees a falling edge with 16 symbols buffered (the symbol goes to \<open>letter_buf[16]\<close>);
  \<^item> it sees a rising edge after a gap of \<open>2 * dot\<close> or more with a pending letter of 16
    symbols (the terminator goes to \<open>letter_buf[16]\<close>) or with a pending letter and 64
    characters buffered (the character goes to \<open>word_buf[64]\<close>);
  \<^item> it sees a rising edge after a gap of \<open>5 * dot\<close> or more and the word buffer holds 64
    characters once the pending letter is closed (the terminator goes to \<open>word_buf[64]\<close>).
\<close>

theorem buffers_within_capacity_until_overrun:
  assumes "length lb = 16" and "length wb = 64" and "run (init lb wb) vs = Inr (s, evs)"
  shows "lidx s \<le> 16 \<and> widx s \<le> 64 \<and>
         length (letter_buf s) = 16 \<and> length (word_buf s) = 64 \<and>
         (tick s volt = Inl OutOfBounds \<longleftrightarrow>
            (if led_on s volt then
               state s = OFF \<and> 2 * dot \<le> duration s \<and>
               (0 < lidx s \<and> (lidx s = 16 \<or> widx s = 64) \<or>
                5 * dot \<le> duration s \<and> widx s + (if 0 < lidx s then 1 else 0) = 64)
             else state s = ON \<and> lidx s = 16))"
proof -
  have w: "wellformed s"
    using run_wf [OF init_wf [OF assms(1,2)] assms(3)] .
  then have "lidx s \<le> 16 \<and> widx s \<le> 64 \<and> length (letter_buf s) = 16 \<and> length (word_buf s) = 64"
    by (simp add: wellformed_def)
  then show ?thesis using tick_OutOfBounds [OF w, of volt] by simp
qed

text \<open>Sixteen short pulses with short gaps fill the letter buffer; the next falling edge
  is the write past its end.\<close>

lemma sixteen_dots:
  "run (init (replicate 16 NUL) (replicate 64 NUL)) (concat (replicate 16 [100, 10]) @ [100])
     = Inr (\<lparr>state = ON, duration = 10, letter_buf = replicate 16 (CHR ''.''), lidx = 16,
              word_buf = replicate 64 NUL, widx = 0\<rparr>, [])"
  by code_simp

theorem buffers_within_capacity_until_overrun_witness:
  "run (init (replicate 16 NUL) (replicate 64 NUL)) (concat (replicate 16 [100, 10]) @ [100])
     = Inr (\<lparr>state = ON, duration = 10, letter_buf = replicate 16 (CHR ''.''), lidx = 16,
              word_buf = replicate 64 NUL, widx = 0\<rparr>, []) \<and>
   tick \<lparr>state = ON, duration = 10, letter_buf = replicate 16 (CHR ''.''), lidx = 16,
         word_buf = replicate 64 NUL, widx = 0\<rparr> 10 = Inl OutOfBounds"
proof -
  let ?s = "\<lparr>state = ON, duration = 10, letter_buf = replicate 16 (CHR ''.''), lidx = 16,
             word_buf = replicate 64 NUL, widx = 0\<rparr>"
  have len: "length (replicate 16 NUL) = 16" "length (replicate 64 NUL) = 64" by simp_all
  note t = buffers_within_capacity_until_overrun [OF len sixteen_dots, of 10]
  have "\<not> led_on ?s 10" and "state ?s = ON \<and> lidx ?s = 16"
    by (simp_all add: led_on_def consts_defs)
  with t have "tick ?s 10 = Inl OutOfBounds" by simp
  then show ?thesis using sixteen_dots by simp
qed

text \<open>
  The claim that no sequence of iterations writes past a buffer fails: seventeen pulses of
  one sample each, one sample apart, from the start.
\<close>

theorem write_past_letter_buf:
  "run (init (replicate 16 NUL) (replicate 64 NUL)) (concat (replicate 17 [100, 10]))
     = Inl OutOfBounds"
  by code_simp

subsection \<open>C4: a letter gap closes the pending letter, while the buffers have room\<close>

text \<open>
  C4, as the code has it.  On a rising edge after a gap of at least \<open>2 * dot\<close>:
  if the gap is below \<open>5 * dot\<close>, then
  \<^item> with no pending letter the iteration changes neither buffer;
  \<^item> with a pending letter of fewer than 16 symbols and fewer than 64 characters buffered,
    it terminates the letter, looks it up, appends the character to the word buffer and
    empties the letter buffer, and prints nothing;
  \<^item> with a pending letter of 16 symbols, or a pending letter and 64 characters buffered,
    the terminator or the character is written one element past its array, which C
    leaves undefined: the code has no capacity check.

  If the gap is \<open>5 * dot\<close> or more, the word-gap branch is taken instead, so a pending
  letter (with room for it and for the terminator of the word) is closed and the word is
  printed: such a gap is never handled as a letter gap only.
\<close>

theorem letter_gap_close_or_overrun:
  assumes "wellformed s" and "state s = OFF" and "threshold + hysteresis < volt"
    and "2 * dot \<le> duration s"
  shows "(duration s < 5 * dot \<longrightarrow>
            tick s volt =
              (if lidx s = 0 then Inr (s\<lparr>state := ON, duration := SAMPLE_MS\<rparr>, [])
               else if lidx s < 16 \<and> widx s < 64 then
                 Inr (s\<lparr>state := ON, duration := SAMPLE_MS,
                        letter_buf := (letter_buf s)[lidx s := NUL], lidx := 0,
                        word_buf := (word_buf s)[widx s := morse_to_char (letter_code s)],
                        widx := widx s + 1\<rparr>, [])
               else Inl OutOfBounds) \<and>
            (0 < lidx s \<and> widx s < 64 \<longrightarrow>
               take (widx s + 1) ((word_buf s)[widx s := morse_to_char (letter_code s)]) =
                 word_text s @ [morse_to_char (letter_code s)])) \<and>
         (5 * dot \<le> duration s \<and> 0 < lidx s \<and> lidx s < 16 \<and> widx s < 63 \<longrightarrow>
            (\<exists>s'. tick s volt =
                     Inr (s', [DecodedWord (word_text s @ [morse_to_char (letter_code s)])]) \<and>
                  lidx s' = 0 \<and> widx s' = 0))"
proof (intro conjI impI)
  assume a: "duration s < 5 * dot"
  then have r: "rising s =
      (if lidx s = 0 then Inr (s\<lparr>duration := 0\<rparr>, [])
       else if lidx s < 16 \<and> widx s < 64 then
         Inr (s\<lparr>letter_buf := (letter_buf s)[lidx s := NUL],
                word_buf := (word_buf s)[widx s := morse_to_char (letter_code s)],
                widx := widx s + 1, lidx := 0, duration := 0\<rparr>, [])
       else Inl OutOfBounds)"
    using assms by (simp add: rising_def close_letter_eq)
  show "tick s volt =
              (if lidx s = 0 then Inr (s\<lparr>state := ON, duration := SAMPLE_MS\<rparr>, [])
               else if lidx s < 16 \<and> widx s < 64 then
                 Inr (s\<lparr>state := ON, duration := SAMPLE_MS,
                        letter_buf := (letter_buf s)[lidx s := NUL], lidx := 0,
                        word_buf := (word_buf s)[widx s := morse_to_char (letter_code s)],
                        widx := widx s + 1\<rparr>, [])
               else Inl OutOfBounds)"
    using assms(2,3) r by (simp add: tick_def led_on_def settle_after_reset)
next
  assume "duration s < 5 * dot" and "0 < lidx s \<and> widx s < 64"
  then have "widx s < length (word_buf s)" using assms(1) by (simp add: wellformed_def)
  then show "take (widx s + 1) ((word_buf s)[widx s := morse_to_char (letter_code s)]) =
                 word_text s @ [morse_to_char (letter_code s)]"
    by (simp add: word_text_def take_update_last)
next
  assume a: "5 * dot \<le> duration s \<and> 0 < lidx s \<and> lidx s < 16 \<and> widx s < 63"
  then obtain s1 ev where r: "rising s = Inr (s1, ev)"
    using rising_returns [OF assms(1)] by blast
  have cw: "closed_word s = word_text s @ [morse_to_char (letter_code s)]"
    using a by (simp add: closed_word_def)
  have ev: "ev = [DecodedWord (word_text s @ [morse_to_char (letter_code s)])]"
    using rising_events(1) [OF assms(1) r] a cw by simp
  have z: "lidx s1 = 0 \<and> widx s1 = 0"
    using rising_events(2) [OF assms(1) r] a by simp
  have "duration s1 = 0" using rising_wf [OF assms(1) r] by simp
  then have "tick s volt = Inr (s1\<lparr>state := ON, duration := SAMPLE_MS\<rparr>, ev)"
    using assms(2,3) r by (simp add: tick_def led_on_def settle_after_reset)
  then show "\<exists>s'. tick s volt =
                     Inr (s', [DecodedWord (word_text s @ [morse_to_char (letter_code s)])]) \<and>
                  lidx s' = 0 \<and> widx s' = 0"
    using ev z by simp
qed

text \<open>The letter \<open>-.\<close> is closed as \<open>N\<close> after a gap of 100 ms; a dot pending behind 64
  buffered characters is not.\<close>

theorem letter_gap_close_or_overrun_witness:
  "(\<exists>s'. tick \<lparr>state = OFF, duration = 100, letter_buf = ''-.'' @ replicate 14 NUL, lidx = 2,
                word_buf = replicate 64 NUL, widx = 0\<rparr> 46
            = Inr (s', []) \<and>
         word_text s' = ''N'' \<and> lidx s' = 0) \<and>
   tick \<lparr>state = OFF, duration = 100, letter_buf = CHR ''.'' # replicate 15 NUL, lidx = 1,
         word_buf = replicate 64 (CHR ''E''), widx = 64\<rparr> 100 = Inl OutOfBounds"
proof -
  let ?s = "\<lparr>state = OFF, duration = 100, letter_buf = ''-.'' @ replicate 14 NUL, lidx = 2,
             word_buf = replicate 64 NUL, widx = 0\<rparr>"
  let ?f = "\<lparr>state = OFF, duration = 100, letter_buf = CHR ''.'' # replicate 15 NUL, lidx = 1,
             word_buf = replicate 64 (CHR ''E''), widx = 64\<rparr>"
  have "wellformed ?s" and "state ?s = OFF" and "threshold + hysteresis < 46"
    and "2 * dot \<le> duration ?s"
    by (simp_all add: state_defs consts_defs)
  note a = letter_gap_close_or_overrun [OF this, THEN conjunct1]
  have "duration ?s < 5 * dot" by (simp add: consts_defs)
  with a have "tick ?s 46 =
              (if lidx ?s = 0 then Inr (?s\<lparr>state := ON, duration := SAMPLE_MS\<rparr>, [])
               else if lidx ?s < 16 \<and> widx ?s < 64 then
                 Inr (?s\<lparr>state := ON, duration := SAMPLE_MS,
                        letter_buf := (letter_buf ?s)[lidx ?s := NUL], lidx := 0,
                        word_buf := (word_buf ?s)[widx ?s := morse_to_char (letter_code ?s)],
                        widx := widx ?s + 1\<rparr>, [])
               else Inl OutOfBounds)"
    by blast
  then have first: "\<exists>s'. tick ?s 46 = Inr (s', []) \<and> word_text s' = ''N'' \<and> lidx s' = 0"
    by (simp add: state_defs morse_to_char_def morse_table_def take_update_last)
  have "wellformed ?f" and "state ?f = OFF" and "threshold + hysteresis < 100"
    and "2 * dot \<le> duration ?f"
    by (simp_all add: state_defs consts_defs list_all_iff)
  note b = letter_gap_close_or_overrun [OF this, THEN conjunct1]
  have "duration ?f < 5 * dot" by (simp add: consts_defs)
  with b have "tick ?f 100 =
              (if lidx ?f = 0 then Inr (?f\<lparr>state := ON, duration := SAMPLE_MS\<rparr>, [])
               else if lidx ?f < 16 \<and> widx ?f < 64 then
                 Inr (?f\<lparr>state := ON, duration := SAMPLE_MS,
                        letter_buf := (letter_buf ?f)[lidx ?f := NUL], lidx := 0,
                        word_buf := (word_buf ?f)[widx ?f := morse_to_char (letter_code ?f)],
                        widx := widx ?f + 1\<rparr>, [])
               else Inl OutOfBounds)"
    by blast
  then have "tick ?f 100 = Inl OutOfBounds" by simp
  with first show ?thesis by blast
qed

text \<open>
  The claim that every letter gap with a pending letter appends its character to the word
  buffer fails: 64 letters \<open>E\<close>, each a pulse of 10 ms followed by 100 ms of dark, fill the
  word buffer, and the rising edge after the next dot appends nothing to it.
\<close>

lemma sixty_four_letters_and_a_dot:
  "run (init (replicate 16 NUL) (replicate 64 NUL)) (concat (replicate 65 (100 # replicate 10 10)))
     = Inr (\<lparr>state = OFF, duration = 100, letter_buf = CHR ''.'' # replicate 15 NUL, lidx = 1,
              word_buf = replicate 64 (CHR ''E''), widx = 64\<rparr>, [])"
  by code_simp

theorem sixty_fifth_letter_not_appended:
  "run (init (replicate 16 NUL) (replicate 64 NUL)) (concat (replicate 65 (100 # replicate 10 10)))
     = Inr (\<lparr>state = OFF, duration = 100, letter_buf = CHR ''.'' # replicate 15 NUL, lidx = 1,
              word_buf = replicate 64 (CHR ''E''), widx = 64\<rparr>, []) \<and>
   tick \<lparr>state = OFF, duration = 100, letter_buf = CHR ''.'' # replicate 15 NUL, lidx = 1,
         word_buf = replicate 64 (CHR ''E''), widx = 64\<rparr> 100 = Inl OutOfBounds"
proof -
  have "tick \<lparr>state = OFF, duration = 100, letter_buf = CHR ''.'' # replicate 15 NUL, lidx = 1,
         word_buf = replicate 64 (CHR ''E''), widx = 64\<rparr> 100 = Inl OutOfBounds"
    by code_simp
  then show ?thesis using sixty_four_letters_and_a_dot by simp
qed

subsection \<open>C5: the symbol table\<close>

text \<open>
  C5. The table has 36 entries with pairwise distinct codes, for the letters A to Z and
  the digits 0 to 9 in this order; every code is a string of 1 to 5 dots and dashes;
  \<open>morse_to_char\<close> returns the character of a code in the table and the question mark
  for every string that is not a code of the table.
\<close>

theorem table_lookup:
  "length morse_table = 36 \<and> distinct (map fst morse_table) \<and>
   map snd morse_table = ''ABCDEFGHIJKLMNOPQRSTUVWXYZ0123456789'' \<and>
   (\<forall>(code, letter) \<in> set morse_table.
      morse_to_char code = letter \<and> 1 \<le> length code \<and> length code \<le> 5 \<and>
      set code \<subseteq> {CHR ''.'', CHR ''-''}) \<and>
   (\<forall>code. code \<notin> fst ` set morse_table \<longrightarrow> morse_to_char code = CHR ''?'')"
proof (intro conjI)
  show "length morse_table = 36" by (simp add: morse_table_def)
  show d: "distinct (map fst morse_table)" by (simp add: morse_table_def)
  show "map snd morse_table = ''ABCDEFGHIJKLMNOPQRSTUVWXYZ0123456789''"
    by (simp add: morse_table_def)
  have hit: "\<And>code letter. (code, letter) \<in> set morse_table \<Longrightarrow> morse_to_char code = letter"
    using d by (simp add: morse_to_char_def scan_table_map_of)
  have shape: "\<forall>(code, letter) \<in> set morse_table.
      1 \<le> length code \<and> length code \<le> 5 \<and> set code \<subseteq> {CHR ''.'', CHR ''-''}"
    by (simp add: morse_table_def)
  show "\<forall>(code, letter) \<in> set morse_table.
      morse_to_char code = letter \<and> 1 \<le> length code \<and> length code \<le> 5 \<and>
      set code \<subseteq> {CHR ''.'', CHR ''-''}"
    using hit shape by fastforce
  show "\<forall>code. code \<notin> fst ` set morse_table \<longrightarrow> morse_to_char code = CHR ''?''"
    by (simp add: morse_to_char_def scan_table_map_of map_of_eq_None_iff [THEN iffD2])
qed

theorem table_lookup_witness:
  "morse_to_char ''-.-.'' = CHR ''C'' \<and> morse_to_char ''.-.-'' = CHR ''?''"
proof -
  note rest = table_lookup [THEN conjunct2, THEN conjunct2, THEN conjunct2]
  note hit = rest [THEN conjunct1] and miss = rest [THEN conjunct2]
  have "(''-.-.'', CHR ''C'') \<in> set morse_table" by (simp add: morse_table_def)
  then have "morse_to_char ''-.-.'' = CHR ''C''" using hit by fast
  moreover have "''.-.-'' \<notin> fst ` set morse_table" by (simp add: morse_table_def)
  then have "morse_to_char ''.-.-'' = CHR ''?''" using miss by simp
  ultimately show ?thesis by simp
qed

subsection \<open>C6: hysteresis\<close>

text \<open>
  C6. Whenever an iteration completes: from \<open>OFF\<close> the loop is in \<open>ON\<close> afterwards
  exactly when the reading is above \<open>threshold + hysteresis\<close>, and from \<open>ON\<close> it is in
  \<open>OFF\<close> afterwards exactly when the reading is at most \<open>threshold - hysteresis\<close>.
  With room in both buffers and in \<open>duration\<close> the iteration does complete.
\<close>

theorem hysteresis_transitions:
  assumes "wellformed s"
  shows "(lidx s < 16 \<and> widx s < 63 \<and> duration s + SAMPLE_MS \<le> INT_MAX \<longrightarrow>
            (\<exists>s' ev. tick s volt = Inr (s', ev))) \<and>
         (\<forall>s' ev. tick s volt = Inr (s', ev) \<longrightarrow>
            (state s = OFF \<longrightarrow> (state s' = ON \<longleftrightarrow> threshold + hysteresis < volt)) \<and>
            (state s = ON \<longrightarrow> (state s' = OFF \<longleftrightarrow> volt \<le> threshold - hysteresis)))"
proof (intro conjI allI impI)
  assume "lidx s < 16 \<and> widx s < 63 \<and> duration s + SAMPLE_MS \<le> INT_MAX"
  then show "\<exists>s' ev. tick s volt = Inr (s', ev)"
    using tick_returns [OF assms] by blast
next
  fix s' ev
  assume "tick s volt = Inr (s', ev)" and "state s = OFF"
  then show "state s' = ON \<longleftrightarrow> threshold + hysteresis < volt"
    using tick_state [of s volt s' ev] by (simp add: led_on_def)
next
  fix s' ev
  assume "tick s volt = Inr (s', ev)" and "state s = ON"
  then show "state s' = OFF \<longleftrightarrow> volt \<le> threshold - hysteresis"
    using tick_state [of s volt s' ev] by (auto simp: led_on_def)
qed

text \<open>A reading of 40 mV, inside the band, keeps either level.\<close>

theorem hysteresis_transitions_witness:
  "(\<exists>s' ev. tick ((init (replicate 16 NUL) (replicate 64 NUL))\<lparr>state := ON, duration := 30\<rparr>) 40
              = Inr (s', ev) \<and> state s' = ON) \<and>
   (\<exists>s' ev. tick ((init (replicate 16 NUL) (replicate 64 NUL))\<lparr>duration := 30\<rparr>) 40
              = Inr (s', ev) \<and> state s' = OFF)"
proof -
  let ?on = "(init (replicate 16 NUL) (replicate 64 NUL))\<lparr>state := ON, duration := 30\<rparr>"
  let ?off = "(init (replicate 16 NUL) (replicate 64 NUL))\<lparr>duration := 30\<rparr>"
  have w: "wellformed ?on" "wellformed ?off"
    by (simp_all add: init_def state_defs consts_defs)
  have room: "lidx ?on < 16 \<and> widx ?on < 63 \<and> duration ?on + SAMPLE_MS \<le> INT_MAX"
    "lidx ?off < 16 \<and> widx ?off < 63 \<and> duration ?off + SAMPLE_MS \<le> INT_MAX"
    by (simp_all add: init_def consts_defs)
  have lvl: "state ?on = ON" "\<not> 40 \<le> threshold - hysteresis"
    "state ?off = OFF" "\<not> threshold + hysteresis < 40"
    by (simp_all add: init_def consts_defs)
  note on = hysteresis_transitions [OF w(1), of 40]
  note off = hysteresis_transitions [OF w(2), of 40]
  from on room(1) obtain s1 ev1 where r1: "tick ?on 40 = Inr (s1, ev1)" by blast
  with on lvl(1,2) have "state s1 \<noteq> OFF" by blast
  then have "state s1 = ON" by (cases "state s1") simp_all
  moreover from off room(2) obtain s2 ev2 where r2: "tick ?off 40 = Inr (s2, ev2)" by blast
  with off lvl(3,4) have "state s2 \<noteq> ON" by blast
  then have "state s2 = OFF" by (cases "state s2") simp_all
  ultimately show ?thesis using r1 r2 by blast
qed

subsection \<open>C7: a short gap changes no buffer\<close>

text \<open>
  C7. On a rising edge after a gap below \<open>2 * dot\<close> the edge block only sets
  \<open>duration\<close> to 0, and the whole iteration changes nothing but the level, which
  becomes \<open>ON\<close>, and \<open>duration\<close>, which becomes \<open>0 + SAMPLE_MS\<close>; it prints nothing.
\<close>

theorem intra_letter_gap_no_action:
  assumes "state s = OFF" and "volt > threshold + hysteresis" and "duration s < 2 * dot"
  shows "rising s = Inr (s\<lparr>duration := 0\<rparr>, []) \<and>
         tick s volt = Inr (s\<lparr>state := ON, duration := 0 + SAMPLE_MS\<rparr>, [])"
  using assms
  by (simp add: tick_def led_on_def rising_def settle_def add_int_def consts_defs)

theorem intra_letter_gap_no_action_witness:
  "tick ((init (replicate 16 NUL) (replicate 64 NUL))\<lparr>duration := 90\<rparr>) 60
     = Inr ((init (replicate 16 NUL) (replicate 64 NUL))\<lparr>state := ON, duration := 10\<rparr>, [])"
  using intra_letter_gap_no_action [of "(init (replicate 16 NUL) (replicate 64 NUL))\<lparr>duration := 90\<rparr>" 60]
  by (simp add: init_def consts_defs)

subsection \<open>C8: the duration counter\<close>

text \<open>
  C8, as the code has it.  Let \<open>duration\<close> be a non-negative multiple of \<open>SAMPLE_MS\<close>.
  Every iteration that completes leaves it a non-negative multiple of \<open>SAMPLE_MS\<close>:
  the new value is \<open>SAMPLE_MS\<close> if the level changed and the old value plus
  \<open>SAMPLE_MS\<close> if it did not; and the iteration handles at most one edge: it is either
  the plain count of a sample, or the rising-edge block followed by the count, or the
  falling-edge block followed by the count.  \<open>duration\<close> is a C \<open>int\<close>: the count
  overflows, which C leaves undefined, exactly when the level does not change and
  \<open>duration\<close> is above \<open>INT_MAX - SAMPLE_MS\<close>; below that, and with room in the
  buffers, the iteration completes.
\<close>

theorem duration_invariant_until_overflow:
  assumes "wellformed s" and "0 \<le> duration s" and "SAMPLE_MS dvd duration s"
  shows "(tick s volt = Inl SignedOverflow \<longleftrightarrow>
            (led_on s volt \<longleftrightarrow> state s = ON) \<and> INT_MAX - SAMPLE_MS < duration s) \<and>
         (lidx s < 16 \<and> widx s < 63 \<and> duration s \<le> INT_MAX - SAMPLE_MS \<longrightarrow>
            (\<exists>s' ev. tick s volt = Inr (s', ev))) \<and>
         (\<forall>s' ev. tick s volt = Inr (s', ev) \<longrightarrow>
            0 \<le> duration s' \<and> SAMPLE_MS dvd duration s' \<and>
            duration s' = (if state s' = state s then duration s else 0) + SAMPLE_MS \<and>
            (state s' = state s \<and> ev = [] \<and> s' = s\<lparr>duration := duration s + SAMPLE_MS\<rparr> \<or>
             state s = OFF \<and> state s' = ON \<and>
               (\<exists>s1. rising s = Inr (s1, ev) \<and> s' = s1\<lparr>state := ON, duration := SAMPLE_MS\<rparr>) \<or>
             state s = ON \<and> state s' = OFF \<and> ev = [] \<and>
               (\<exists>s1. falling s = Inr s1 \<and> s' = s1\<lparr>state := OFF, duration := SAMPLE_MS\<rparr>)))"
proof (intro conjI allI impI)
  show "tick s volt = Inl SignedOverflow \<longleftrightarrow>
            (led_on s volt \<longleftrightarrow> state s = ON) \<and> INT_MAX - SAMPLE_MS < duration s"
    using tick_SignedOverflow [OF assms(1), of volt] by auto
next
  assume "lidx s < 16 \<and> widx s < 63 \<and> duration s \<le> INT_MAX - SAMPLE_MS"
  then show "\<exists>s' ev. tick s volt = Inr (s', ev)"
    using tick_returns [OF assms(1), of volt] by simp
next
  fix s' ev
  assume t: "tick s volt = Inr (s', ev)"
  from t have shape:
    "duration s' = (if state s' = state s then duration s else 0) + SAMPLE_MS \<and>
     (state s' = state s \<and> ev = [] \<and> s' = s\<lparr>duration := duration s + SAMPLE_MS\<rparr> \<or>
      state s = OFF \<and> state s' = ON \<and>
        (\<exists>s1. rising s = Inr (s1, ev) \<and> s' = s1\<lparr>state := ON, duration := SAMPLE_MS\<rparr>) \<or>
      state s = ON \<and> state s' = OFF \<and> ev = [] \<and>
        (\<exists>s1. falling s = Inr s1 \<and> s' = s1\<lparr>state := OFF, duration := SAMPLE_MS\<rparr>))"
  proof (cases rule: tick_Inr_cases)
    case level
    then have "s' = s\<lparr>state := state s, duration := duration s + SAMPLE_MS\<rparr>"
      using settle_Inr [of "state s" s s'] by simp
    then have "s' = s\<lparr>duration := duration s + SAMPLE_MS\<rparr>" by simp
    then show ?thesis using level by simp
  next
    case (rise s1)
    have d: "duration s1 = 0" using rising_wf [OF assms(1) rise(3)] by simp
    then have "s' = s1\<lparr>state := ON, duration := SAMPLE_MS\<rparr>"
      using rise settle_Inr [of ON s1 s'] by simp
    then show ?thesis using rise by simp
  next
    case (fall s1)
    have d: "duration s1 = 0" using falling_wf [OF assms(1) fall(3)] by simp
    then have "s' = s1\<lparr>state := OFF, duration := SAMPLE_MS\<rparr>"
      using fall settle_Inr [of OFF s1 s'] by simp
    then show ?thesis using fall by simp
  qed
  then show "duration s' = (if state s' = state s then duration s else 0) + SAMPLE_MS"
    and "state s' = state s \<and> ev = [] \<and> s' = s\<lparr>duration := duration s + SAMPLE_MS\<rparr> \<or>
      state s = OFF \<and> state s' = ON \<and>
        (\<exists>s1. rising s = Inr (s1, ev) \<and> s' = s1\<lparr>state := ON, duration := SAMPLE_MS\<rparr>) \<or>
      state s = ON \<and> state s' = OFF \<and> ev = [] \<and>
        (\<exists>s1. falling s = Inr s1 \<and> s' = s1\<lparr>state := OFF, duration := SAMPLE_MS\<rparr>)"
    by blast+
  from shape have d: "duration s' = (if state s' = state s then duration s else 0) + SAMPLE_MS"
    by blast
  show "0 \<le> duration s'" using d assms(2) by (simp add: consts_defs)
  show "SAMPLE_MS dvd duration s'" using d assms(3) by simp
qed

text \<open>The last sample that fits, and the first that does not.\<close>

theorem duration_invariant_until_overflow_witness:
  "(\<exists>s' ev. tick ((init (replicate 16 NUL) (replicate 64 NUL))\<lparr>duration := 2147483630\<rparr>) 10
              = Inr (s', ev) \<and> duration s' = 2147483640 \<and> SAMPLE_MS dvd duration s') \<and>
   tick ((init (replicate 16 NUL) (replicate 64 NUL))\<lparr>duration := 2147483640\<rparr>) 10
     = Inl SignedOverflow"
proof -
  let ?a = "(init (replicate 16 NUL) (replicate 64 NUL))\<lparr>duration := 2147483630\<rparr>"
  let ?b = "(init (replicate 16 NUL) (replicate 64 NUL))\<lparr>duration := 2147483640\<rparr>"
  have a: "wellformed ?a" "0 \<le> duration ?a" "SAMPLE_MS dvd duration ?a"
    by (simp_all add: init_def state_defs consts_defs)
  have b: "wellformed ?b" "0 \<le> duration ?b" "SAMPLE_MS dvd duration ?b"
    by (simp_all add: init_def state_defs consts_defs)
  note ta = duration_invariant_until_overflow [OF a, of 10]
  note tb = duration_invariant_until_overflow [OF b, of 10]
  have "lidx ?a < 16 \<and> widx ?a < 63 \<and> duration ?a \<le> INT_MAX - SAMPLE_MS"
    by (simp add: init_def consts_defs)
  with ta obtain s' ev where r: "tick ?a 10 = Inr (s', ev)" by blast
  with ta have d: "SAMPLE_MS dvd duration s'"
    and "duration s' = (if state s' = state ?a then duration ?a else 0) + SAMPLE_MS"
    by blast+
  moreover have "state s' = OFF"
    using tick_state [OF r] by (simp add: led_on_def init_def consts_defs)
  ultimately have "duration s' = 2147483640" by (simp add: init_def consts_defs)
  then have first: "\<exists>s' ev. tick ?a 10 = Inr (s', ev) \<and> duration s' = 2147483640 \<and>
      SAMPLE_MS dvd duration s'"
    using r d by blast
  have "(led_on ?b 10 \<longleftrightarrow> state ?b = ON) \<and> INT_MAX - SAMPLE_MS < duration ?b"
    by (simp add: led_on_def init_def consts_defs)
  with tb have "tick ?b 10 = Inl SignedOverflow" by blast
  with first show ?thesis by blast
qed

text \<open>
  The claim that \<open>duration\<close> is always a non-negative multiple of the sampling period
  fails: after 214748364 dark samples from the start (about 24.8 days) \<open>duration\<close> is
  2147483640, and the next dark sample adds 10 to it.
\<close>

lemma replicate_split_last: "replicate (214748365::nat) (10::int) = replicate 214748364 10 @ [10]"
proof -
  have "(214748365::nat) = 214748364 + 1" by simp
  then have "replicate (214748365::nat) (10::int) = replicate (214748364 + 1) 10"
    by (rule arg_cong)
  also have "\<dots> = replicate 214748364 10 @ replicate 1 10" by (rule replicate_add)
  also have "replicate 1 (10::int) = [10]" by simp
  finally show ?thesis .
qed

lemma long_dark_run:
  "run (init (replicate 16 NUL) (replicate 64 NUL)) (replicate 214748364 10)
     = Inr ((init (replicate 16 NUL) (replicate 64 NUL))\<lparr>duration := 2147483640\<rparr>, [])"
proof -
  let ?s = "init (replicate 16 NUL) (replicate 64 NUL)"
  have "state ?s = OFF" and "10 \<le> threshold + hysteresis" and "INT_MIN \<le> duration ?s"
    and "duration ?s + SAMPLE_MS * int 214748364 \<le> INT_MAX"
    by (simp_all add: init_def consts_defs)
  from run_dark_level [OF this]
  have "run ?s (replicate 214748364 10)
          = Inr (?s\<lparr>duration := duration ?s + SAMPLE_MS * int 214748364\<rparr>, [])" .
  moreover have "duration ?s + SAMPLE_MS * int 214748364 = 2147483640"
    by (simp add: init_def consts_defs)
  ultimately show ?thesis by (simp only:)
qed

lemma overflow_tick:
  "tick ((init (replicate 16 NUL) (replicate 64 NUL))\<lparr>duration := 2147483640\<rparr>) 10
     = Inl SignedOverflow"
  by (simp add: tick_dark_level init_def consts_defs)

theorem duration_overflow:
  "run (init (replicate 16 NUL) (replicate 64 NUL)) (replicate 214748365 10)
     = Inl SignedOverflow"
proof -
  let ?s = "init (replicate 16 NUL) (replicate 64 NUL)"
  have "run ?s (replicate 214748364 10 @ [10]) =
          (case run ?s (replicate 214748364 10) of
             Inl e \<Rightarrow> Inl e
           | Inr (s1, ev1) \<Rightarrow>
              (case run s1 [10] of Inl e \<Rightarrow> Inl e | Inr (s2, ev2) \<Rightarrow> Inr (s2, ev1 @ ev2)))"
    by (rule run_append)
  also have "\<dots> = Inl SignedOverflow"
    unfolding long_dark_run by (simp add: overflow_tick)
  finally show ?thesis unfolding replicate_split_last .
qed

subsection \<open>C9: the first iteration\<close>

text \<open>
  C9. The loop starts in \<open>OFF\<close> with \<open>duration = 0\<close> and both buffers empty, whatever
  the arrays hold.  Its first iteration, for every reading, prints nothing and changes
  neither buffer: it sets the level and counts one sample.
\<close>

theorem startup_no_event:
  "state (init lb wb) = OFF \<and> duration (init lb wb) = 0 \<and>
   letter_code (init lb wb) = [] \<and> word_text (init lb wb) = [] \<and>
   tick (init lb wb) volt =
     Inr ((init lb wb)\<lparr>state := if volt > threshold + hysteresis then ON else OFF,
                        duration := SAMPLE_MS\<rparr>, [])"
  by (simp add: init_def tick_def led_on_def rising_def settle_def add_int_def
      letter_code_def word_text_def consts_defs)

theorem startup_no_event_witness:
  "tick (init (replicate 16 NUL) (replicate 64 NUL)) 100
     = Inr ((init (replicate 16 NUL) (replicate 64 NUL))\<lparr>state := ON, duration := 10\<rparr>, [])"
  using startup_no_event [of "replicate 16 NUL" "replicate 64 NUL" 100]
  by (simp add: consts_defs)

subsection \<open>C10: the lookup on arbitrary strings\<close>

text \<open>
  C10. \<open>morse_to_char\<close> is a function of the string alone, defined on every string: it
  is the table read as a map, with the question mark where the map has no entry.  In
  particular the empty string, every string longer than 5 characters and every string
  with a character other than dot and dash give the question mark, as does every other
  string that is not a code of the table.
\<close>

theorem lookup_total_on_all_strings:
  "morse_to_char code =
     (case map_of morse_table code of None \<Rightarrow> CHR ''?'' | Some letter \<Rightarrow> letter) \<and>
   (code = [] \<or> 5 < length code \<or> \<not> set code \<subseteq> {CHR ''.'', CHR ''-''} \<longrightarrow>
      morse_to_char code = CHR ''?'') \<and>
   (code \<notin> fst ` set morse_table \<longrightarrow> morse_to_char code = CHR ''?'')"
proof (intro conjI impI)
  show m: "morse_to_char code =
     (case map_of morse_table code of None \<Rightarrow> CHR ''?'' | Some letter \<Rightarrow> letter)"
    by (simp add: morse_to_char_def scan_table_map_of)
  have miss: "code \<notin> fst ` set morse_table \<Longrightarrow> morse_to_char code = CHR ''?''" 
    using m by (simp add: map_of_eq_None_iff [THEN iffD2])
  then show "code \<notin> fst ` set morse_table \<Longrightarrow> morse_to_char code = CHR ''?''" .
  have shape: "\<forall>c \<in> fst ` set morse_table.
      c \<noteq> [] \<and> length c \<le> 5 \<and> set c \<subseteq> {CHR ''.'', CHR ''-''}"
    by (simp add: morse_table_def)
  assume "code = [] \<or> 5 < length code \<or> \<not> set code \<subseteq> {CHR ''.'', CHR ''-''}"
  then have "code \<notin> fst ` set morse_table" using shape by fastforce
  then show "morse_to_char code = CHR ''?''" by (rule miss)
qed

theorem lookup_total_on_all_strings_witness:
  "morse_to_char [] = CHR ''?'' \<and> morse_to_char ''......'' = CHR ''?'' \<and>
   morse_to_char ''SOS'' = CHR ''?''"
proof -
  have "morse_to_char [] = CHR ''?''"
    using lookup_total_on_all_strings [of "[]"] by blast
  moreover have "5 < length ''......''" by simp
  then have "morse_to_char ''......'' = CHR ''?''"
    using lookup_total_on_all_strings [of "''......''"] by blast
  moreover have "\<not> set ''SOS'' \<subseteq> {CHR ''.'', CHR ''-''}" by simp
  then have "morse_to_char ''SOS'' = CHR ''?''"
    using lookup_total_on_all_strings [of "''SOS''"] by blast
  ultimately show ?thesis by simp
qed

end
